theory Spec2Isabelle
  imports Complex_Main "HOL-Library.Multiset"
begin

section \<open>The sorted linked list of the workload harness\<close>

text \<open>
  Source: \<^verbatim>\<open>src/LAB2_TASK3/src/test_pthread_rwlock.c\<close>. The global \<^verbatim>\<open>head\<close> points to a
  singly linked chain of \<^verbatim>\<open>struct list_node_s { int data; next }\<close>. The chain is modelled by
  the list of its \<^verbatim>\<open>data\<close> fields from \<^verbatim>\<open>head\<close> on; the functions take the chain and
  return C's return value together with the chain they leave in \<^verbatim>\<open>head\<close>. The keys are
  only compared, never computed with, so C's \<^verbatim>\<open>int\<close> is read as an integer.
  \<^verbatim>\<open>malloc\<close> in \<^verbatim>\<open>Insert\<close> is taken to succeed: the source does not test its result.
\<close>

text \<open>
  The walk shared by \<^verbatim>\<open>Insert\<close>, \<^verbatim>\<open>Member\<close> and \<^verbatim>\<open>Delete\<close>:
  \<^verbatim>\<open>while (curr != NULL && curr->data < value) { pred = curr; curr = curr->next; }\<close>
  The first list holds the nodes already passed (its last node is \<^verbatim>\<open>pred\<close>; it is empty
  exactly when \<^verbatim>\<open>pred == NULL\<close>), the second the chain from \<^verbatim>\<open>curr\<close> on.
\<close>

fun walk :: "int \<Rightarrow> int list \<Rightarrow> int list \<Rightarrow> int list \<times> int list" where
  "walk v passed [] = (passed, [])"
| "walk v passed (d # rest) =
     (if d < v then walk v (passed @ [d]) rest else (passed, d # rest))"

text \<open>
  \<^verbatim>\<open>Insert\<close>: a new node is linked in front of \<^verbatim>\<open>curr\<close> when the walk ran off the end
  or stopped at a larger key (\<^verbatim>\<open>head = temp\<close> when \<^verbatim>\<open>pred == NULL\<close>, else
  \<^verbatim>\<open>pred->next = temp\<close>); otherwise the key is there already and \<^verbatim>\<open>rv = 0\<close>.
\<close>

definition Insert :: "int \<Rightarrow> int list \<Rightarrow> int \<times> int list" where
  "Insert v chain =
     (case walk v [] chain of
        (passed, []) \<Rightarrow> (1, if passed = [] then [v] else passed @ [v])
      | (passed, d # rest) \<Rightarrow>
          if d > v then (1, if passed = [] then v # d # rest else passed @ v # d # rest)
          else (0, chain))"

text \<open>\<^verbatim>\<open>Member\<close>: the same walk without \<^verbatim>\<open>pred\<close>; the chain is not written.\<close>

definition Member :: "int \<Rightarrow> int list \<Rightarrow> int" where
  "Member v chain =
     (case walk v [] chain of
        (passed, []) \<Rightarrow> 0
      | (passed, d # rest) \<Rightarrow> if d > v then 0 else 1)"

text \<open>
  \<^verbatim>\<open>Delete\<close>: the node at \<^verbatim>\<open>curr\<close> is unlinked when it carries the key
  (\<^verbatim>\<open>head = curr->next\<close> when \<^verbatim>\<open>pred == NULL\<close>, else \<^verbatim>\<open>pred->next = curr->next\<close>);
  otherwise \<^verbatim>\<open>rv = 0\<close>.
\<close>

definition Delete :: "int \<Rightarrow> int list \<Rightarrow> int \<times> int list" where
  "Delete v chain =
     (case walk v [] chain of
        (passed, []) \<Rightarrow> (0, chain)
      | (passed, d # rest) \<Rightarrow>
          if d = v then (1, if passed = [] then rest else passed @ rest)
          else (0, chain))"

text \<open>A sequence of mutating calls, as a thread holding the write lock issues them.\<close>

datatype list_op = Do_Insert int | Do_Delete int

fun apply_op :: "list_op \<Rightarrow> int list \<Rightarrow> int list" where
  "apply_op (Do_Insert v) chain = snd (Insert v chain)"
| "apply_op (Do_Delete v) chain = snd (Delete v chain)"

fun apply_ops :: "list_op list \<Rightarrow> int list \<Rightarrow> int list" where
  "apply_ops [] chain = chain"
| "apply_ops (operation # later) chain = apply_ops later (apply_op operation chain)"

text \<open>The list invariant of the harness: keys strictly ascending, hence no key twice.\<close>

definition ascending :: "int list \<Rightarrow> bool" where
  "ascending chain = sorted_wrt (<) chain"

section \<open>The reader-writer lock\<close>

text \<open>
  Source: \<^verbatim>\<open>my_rwlock.c\<close>, lines 265 to 469 of \<^verbatim>\<open>src/firstTask.c\<close>. The mutex and the
  two condition variables carry no state of their own here; what they do is the division
  of the functions into sections that run under the mutex.
\<close>

text \<open>
  Modelled from the spec: the declaration of \<^verbatim>\<open>my_rwlock_t\<close> in \<^verbatim>\<open>my_rwlock.h\<close>, which is
  not among the sources. The spec's data model names the four fields, three counts and a
  flag. They are signed integers here, as the functions use them: the source compares
  them with 0, increments and decrements them, stores 0 and 1 in \<^verbatim>\<open>writer_active\<close> and
  tests it for being non-zero.
\<close>

record my_rwlock_t =
  active_readers :: int
  waiting_readers :: int
  waiting_writers :: int
  writer_active :: int

text \<open>\<^verbatim>\<open>EINVAL\<close> of \<^verbatim>\<open>errno.h\<close>, with the value it has on Linux.\<close>

definition EINVAL :: int where
  "EINVAL = 22"

text \<open>
  The values the pthread primitives return to a lock operation. The source calls
  \<^verbatim>\<open>pthread_mutex_lock\<close>, \<^verbatim>\<open>pthread_mutex_unlock\<close>, \<^verbatim>\<open>pthread_cond_wait\<close>,
  \<^verbatim>\<open>pthread_cond_signal\<close> and \<^verbatim>\<open>pthread_cond_broadcast\<close> as statements, so the model
  takes these values as an input and, like the source, does not read them.
\<close>

record prim_rc =
  mutex_lock_rc :: int
  mutex_unlock_rc :: int
  cond_notify_rc :: int

record init_rc =
  mutex_init_rc :: int
  readers_cv_init_rc :: int
  writers_cv_init_rc :: int

text \<open>
  A lock handle is \<open>None\<close> for \<^verbatim>\<open>NULL\<close> and \<open>Some s\<close> for a pointer to a lock whose
  fields hold \<open>s\<close>. \<^verbatim>\<open>my_rwlock_init\<close> returns the first non-zero code of the three
  initialisations and writes the counters only when all three succeeded.
\<close>

definition lock0 :: my_rwlock_t where
  "lock0 = \<lparr>active_readers = 0, waiting_readers = 0, waiting_writers = 0, writer_active = 0\<rparr>"

definition my_rwlock_init :: "init_rc \<Rightarrow> my_rwlock_t option \<Rightarrow> int \<times> my_rwlock_t option" where
  "my_rwlock_init rcs rwlock =
     (case rwlock of
        None \<Rightarrow> (EINVAL, None)
      | Some s \<Rightarrow>
          if mutex_init_rc rcs \<noteq> 0 then (mutex_init_rc rcs, Some s)
          else if readers_cv_init_rc rcs \<noteq> 0 then (readers_cv_init_rc rcs, Some s)
          else if writers_cv_init_rc rcs \<noteq> 0 then (writers_cv_init_rc rcs, Some s)
          else (0, Some lock0))"

subsection \<open>The sections that run under the mutex\<close>

text \<open>\<^verbatim>\<open>rwlock->waiting_readers++\<close> and the condition of the wait loop of \<^verbatim>\<open>my_rwlock_rdlock\<close>.\<close>

definition rd_enter :: "my_rwlock_t \<Rightarrow> my_rwlock_t" where
  "rd_enter s = s\<lparr>waiting_readers := waiting_readers s + 1\<rparr>"

definition rd_must_wait :: "my_rwlock_t \<Rightarrow> bool" where
  "rd_must_wait s = (writer_active s \<noteq> 0 \<or> waiting_writers s > 0)"

text \<open>\<^verbatim>\<open>rwlock->waiting_readers--; rwlock->active_readers++;\<close>\<close>

definition rd_admit :: "my_rwlock_t \<Rightarrow> my_rwlock_t" where
  "rd_admit s = s\<lparr>waiting_readers := waiting_readers s - 1, active_readers := active_readers s + 1\<rparr>"

text \<open>The same three pieces of \<^verbatim>\<open>my_rwlock_wrlock\<close>.\<close>

definition wr_enter :: "my_rwlock_t \<Rightarrow> my_rwlock_t" where
  "wr_enter s = s\<lparr>waiting_writers := waiting_writers s + 1\<rparr>"

definition wr_must_wait :: "my_rwlock_t \<Rightarrow> bool" where
  "wr_must_wait s = (active_readers s > 0 \<or> writer_active s \<noteq> 0)"

definition wr_admit :: "my_rwlock_t \<Rightarrow> my_rwlock_t" where
  "wr_admit s = s\<lparr>waiting_writers := waiting_writers s - 1, writer_active := 1\<rparr>"

text \<open>
  The calls \<^verbatim>\<open>my_rwlock_unlock\<close> makes on the condition variables:
  \<^verbatim>\<open>pthread_cond_signal(&rwlock->writers_cv)\<close> and
  \<^verbatim>\<open>pthread_cond_broadcast(&rwlock->readers_cv)\<close>.
\<close>

datatype cv = Readers_cv | Writers_cv

datatype cond_call = Cond_signal cv | Cond_broadcast cv

text \<open>
  The body of \<^verbatim>\<open>my_rwlock_unlock\<close> between locking and unlocking the mutex: the fields it
  leaves and the calls it made, in order.
\<close>

definition unlock_section :: "my_rwlock_t \<Rightarrow> my_rwlock_t \<times> cond_call list" where
  "unlock_section s =
     (if writer_active s \<noteq> 0 then
        (let s1 = s\<lparr>writer_active := 0\<rparr> in
           if waiting_writers s1 > 0 then (s1, [Cond_signal Writers_cv])
           else if waiting_readers s1 > 0 then (s1, [Cond_broadcast Readers_cv])
           else (s1, []))
      else
        (let s1 = s\<lparr>active_readers := active_readers s - 1\<rparr> in
           if active_readers s1 = 0 then
             (if waiting_writers s1 > 0 then (s1, [Cond_signal Writers_cv])
              else if waiting_readers s1 > 0 then (s1, [Cond_broadcast Readers_cv])
              else (s1, []))
           else (s1, [])))"

subsection \<open>The operations as one thread runs them\<close>

text \<open>
  \<^verbatim>\<open>while (...) pthread_cond_wait(...)\<close>: every return of \<^verbatim>\<open>pthread_cond_wait\<close> hands the
  thread a return value and the lock as the other threads left it while the mutex was
  released. The list holds these pairs in order. The loop tests the fields it has, and
  either leaves with them or takes the next pair; when the list is used up and the
  condition still holds the thread is still parked, which is \<open>None\<close>.
\<close>

fun rd_wait :: "(int \<times> my_rwlock_t) list \<Rightarrow> my_rwlock_t \<Rightarrow> my_rwlock_t option" where
  "rd_wait [] s = (if rd_must_wait s then None else Some s)"
| "rd_wait ((rc, s') # wakeups) s = (if rd_must_wait s then rd_wait wakeups s' else Some s)"

fun wr_wait :: "(int \<times> my_rwlock_t) list \<Rightarrow> my_rwlock_t \<Rightarrow> my_rwlock_t option" where
  "wr_wait [] s = (if wr_must_wait s then None else Some s)"
| "wr_wait ((rc, s') # wakeups) s = (if wr_must_wait s then wr_wait wakeups s' else Some s)"

text \<open>
  The three operations: the result is \<open>None\<close> while the call has not returned, else the
  value returned and the handle. \<^verbatim>\<open>my_rwlock_unlock\<close> always returns; it also gives the
  calls it made on the condition variables.
\<close>

definition my_rwlock_rdlock ::
  "prim_rc \<Rightarrow> (int \<times> my_rwlock_t) list \<Rightarrow> my_rwlock_t option \<Rightarrow> (int \<times> my_rwlock_t option) option" where
  "my_rwlock_rdlock rcs wakeups rwlock =
     (case rwlock of
        None \<Rightarrow> Some (EINVAL, None)
      | Some s \<Rightarrow>
          (case rd_wait wakeups (rd_enter s) of
             None \<Rightarrow> None
           | Some s1 \<Rightarrow> Some (0, Some (rd_admit s1))))"

definition my_rwlock_wrlock ::
  "prim_rc \<Rightarrow> (int \<times> my_rwlock_t) list \<Rightarrow> my_rwlock_t option \<Rightarrow> (int \<times> my_rwlock_t option) option" where
  "my_rwlock_wrlock rcs wakeups rwlock =
     (case rwlock of
        None \<Rightarrow> Some (EINVAL, None)
      | Some s \<Rightarrow>
          (case wr_wait wakeups (wr_enter s) of
             None \<Rightarrow> None
           | Some s1 \<Rightarrow> Some (0, Some (wr_admit s1))))"

definition my_rwlock_unlock ::
  "prim_rc \<Rightarrow> my_rwlock_t option \<Rightarrow> int \<times> my_rwlock_t option \<times> cond_call list" where
  "my_rwlock_unlock rcs rwlock =
     (case rwlock of
        None \<Rightarrow> (EINVAL, None, [])
      | Some s \<Rightarrow> (0, Some (fst (unlock_section s)), snd (unlock_section s)))"

subsection \<open>The lock as a state machine\<close>

text \<open>
  The steps that change the fields, each run under the mutex and hence one at a time:
  entering \<^verbatim>\<open>my_rwlock_rdlock\<close> or \<^verbatim>\<open>my_rwlock_wrlock\<close> (the increment of the waiting
  counter), leaving its wait loop (possible only when the loop condition is false), and
  \<^verbatim>\<open>my_rwlock_unlock\<close>. Entering and leaving are separate steps, so that other threads may
  run in between as they do while a thread is parked; a thread that never parks is the
  two steps in a row. \<open>fire\<close> places no restriction on who takes a step or when:
  in particular \<open>Unlock_step\<close> may be taken by a thread that holds nothing.
\<close>

datatype atomic = Rd_enter | Rd_pass | Wr_enter | Wr_pass | Unlock_step

fun fire :: "atomic \<Rightarrow> my_rwlock_t \<Rightarrow> my_rwlock_t option" where
  "fire Rd_enter s = Some (rd_enter s)"
| "fire Rd_pass s = (if rd_must_wait s then None else Some (rd_admit s))"
| "fire Wr_enter s = Some (wr_enter s)"
| "fire Wr_pass s = (if wr_must_wait s then None else Some (wr_admit s))"
| "fire Unlock_step s = Some (fst (unlock_section s))"

fun fire_all :: "atomic list \<Rightarrow> my_rwlock_t \<Rightarrow> my_rwlock_t option" where
  "fire_all [] s = Some s"
| "fire_all (a # later) s = (case fire a s of None \<Rightarrow> None | Some s' \<Rightarrow> fire_all later s')"

text \<open>
  The lock together with the threads that use it. Each thread is at one place of the
  pattern \<^verbatim>\<open>Thread_work\<close> follows: outside the lock, inside the wait loop of
  \<^verbatim>\<open>my_rwlock_rdlock\<close> or \<^verbatim>\<open>my_rwlock_wrlock\<close>, or between the return of one of them and its
  call of \<^verbatim>\<open>my_rwlock_unlock\<close>. A thread in a wait loop that finds the loop condition true
  waits again and changes nothing.
\<close>

datatype place = Idle | Rd_waiting | Reading | Wr_waiting | Writing

record system =
  lock :: my_rwlock_t
  places :: "place list"

definition start :: "nat \<Rightarrow> system" where
  "start n = \<lparr>lock = lock0, places = replicate n Idle\<rparr>"

definition move :: "nat \<Rightarrow> place \<Rightarrow> my_rwlock_t \<Rightarrow> system \<Rightarrow> system" where
  "move t p s c = \<lparr>lock = s, places = (places c)[t := p]\<rparr>"

fun step :: "nat \<times> atomic \<Rightarrow> system \<Rightarrow> system option" where
  "step (t, a) c =
     (if t < length (places c) then
        (case (a, places c ! t) of
           (Rd_enter, Idle) \<Rightarrow> Some (move t Rd_waiting (rd_enter (lock c)) c)
         | (Rd_pass, Rd_waiting) \<Rightarrow>
             if rd_must_wait (lock c) then Some c
             else Some (move t Reading (rd_admit (lock c)) c)
         | (Wr_enter, Idle) \<Rightarrow> Some (move t Wr_waiting (wr_enter (lock c)) c)
         | (Wr_pass, Wr_waiting) \<Rightarrow>
             if wr_must_wait (lock c) then Some c
             else Some (move t Writing (wr_admit (lock c)) c)
         | (Unlock_step, Reading) \<Rightarrow> Some (move t Idle (fst (unlock_section (lock c))) c)
         | (Unlock_step, Writing) \<Rightarrow> Some (move t Idle (fst (unlock_section (lock c))) c)
         | _ \<Rightarrow> None)
      else None)"

fun run :: "(nat \<times> atomic) list \<Rightarrow> system \<Rightarrow> system option" where
  "run [] c = Some c"
| "run (e # later) c = (case step e c of None \<Rightarrow> None | Some c' \<Rightarrow> run later c')"

section \<open>The worker threads and the harness process\<close>

text \<open>
  Source: \<^verbatim>\<open>Thread_work\<close>, \<^verbatim>\<open>main\<close>, \<^verbatim>\<open>Usage\<close> and \<^verbatim>\<open>Get_input\<close> of
  \<^verbatim>\<open>src/LAB2_TASK3/src/test_pthread_rwlock.c\<close>. The globals a worker reads are a record.
  The type \<open>'d\<close> stands for C's \<^verbatim>\<open>double\<close>: the workers only compare such values with
  \<^verbatim>\<open><\<close> and add two of them, so \<open>'d\<close> is any linearly ordered type with an addition,
  and \<open>+\<close> on it is whatever the addition of doubles gives.
\<close>

record 'd globals =
  thread_count :: int
  total_ops :: int
  search_percent :: 'd
  insert_percent :: 'd

text \<open>
  \<^verbatim>\<open>my_rand.h\<close> is not among the sources. Its two generators take the address of an
  \<^verbatim>\<open>unsigned\<close> seed, update it and return a \<^verbatim>\<open>double\<close> and an \<^verbatim>\<open>unsigned\<close>: here they
  are parameters that map a seed to the value and the next seed.
\<close>

record 'd my_rand_h =
  my_drand :: "nat \<Rightarrow> 'd \<times> nat"
  my_rand :: "nat \<Rightarrow> nat \<times> nat"

definition MAX_KEY :: nat where
  "MAX_KEY = 100000000"

text \<open>
  C's \<^verbatim>\<open>/\<close> on \<^verbatim>\<open>int\<close> truncates toward zero. A zero divisor is undefined in C; a
  worker divides by \<^verbatim>\<open>thread_count\<close>, and workers exist only when it is at least 1.
\<close>

definition c_div :: "int \<Rightarrow> int \<Rightarrow> int" where
  "c_div a b = sgn a * sgn b * (\<bar>a\<bar> div \<bar>b\<bar>)"

text \<open>
  The three counters, both the locals \<^verbatim>\<open>my_member_count\<close>, \<^verbatim>\<open>my_insert_count\<close>,
  \<^verbatim>\<open>my_delete_count\<close> of a worker and the globals they are added to.
\<close>

record counters =
  member_count :: int
  insert_count :: int
  delete_count :: int

definition no_counts :: counters where
  "no_counts = \<lparr>member_count = 0, insert_count = 0, delete_count = 0\<rparr>"

text \<open>The calls a worker makes on the lock and on the list, in the order it makes them.\<close>

datatype call =
  Rwlock_rdlock | Rwlock_wrlock | Rwlock_unlock
  | Call_Member int | Call_Insert int | Call_Delete int

text \<open>
  The body of the loop of \<^verbatim>\<open>Thread_work\<close> after the two draws: the calls it makes and the
  local counters it leaves.
\<close>

definition iteration ::
  "'d::{linorder,plus} globals \<Rightarrow> 'd \<Rightarrow> int \<Rightarrow> counters \<Rightarrow> call list \<times> counters" where
  "iteration g which_op val my =
     (if which_op < search_percent g then
        ([Rwlock_rdlock, Call_Member val, Rwlock_unlock],
         my\<lparr>member_count := member_count my + 1\<rparr>)
      else if which_op < search_percent g + insert_percent g then
        ([Rwlock_wrlock, Call_Insert val, Rwlock_unlock],
         my\<lparr>insert_count := insert_count my + 1\<rparr>)
      else
        ([Rwlock_wrlock, Call_Delete val, Rwlock_unlock],
         my\<lparr>delete_count := delete_count my + 1\<rparr>))"

text \<open>\<^verbatim>\<open>for (i = 0; i < ops_per_thread; i++)\<close> with the two draws at the head of the body.\<close>

function thread_loop ::
  "'d::{linorder,plus} globals \<Rightarrow> 'd my_rand_h \<Rightarrow> int \<Rightarrow> int \<Rightarrow> nat \<Rightarrow>
     call list \<times> counters \<Rightarrow> call list \<times> counters" where
  "thread_loop g r ops_per_thread i seed sofar =
     (if i < ops_per_thread then
        (case my_drand r seed of (which_op, seed1) \<Rightarrow>
         case my_rand r seed1 of (x, seed2) \<Rightarrow>
         case iteration g which_op (int (x mod MAX_KEY)) (snd sofar) of (calls, my) \<Rightarrow>
           thread_loop g r ops_per_thread (i + 1) seed2 (fst sofar @ calls, my))
      else sofar)"
  by pat_completeness auto
termination
  by (relation "measure (\<lambda>(g, r, ops_per_thread, i, seed, sofar). nat (ops_per_thread - i))") auto

declare thread_loop.simps [simp del]

text \<open>\<^verbatim>\<open>Thread_work\<close> up to the merge: the seed is \<^verbatim>\<open>my_rank + 1\<close>.\<close>

definition Thread_work ::
  "'d::{linorder,plus} globals \<Rightarrow> 'd my_rand_h \<Rightarrow> nat \<Rightarrow> call list \<times> counters" where
  "Thread_work g r my_rank =
     thread_loop g r (c_div (total_ops g) (thread_count g)) 0 (my_rank + 1) ([], no_counts)"

text \<open>
  The merge at the end of \<^verbatim>\<open>Thread_work\<close> runs under \<^verbatim>\<open>count_mutex\<close>, so the workers
  merge one after the other, in some order of their ranks.
\<close>

definition merge_counts :: "counters \<Rightarrow> counters \<Rightarrow> counters" where
  "merge_counts shared my =
     \<lparr>member_count = member_count shared + member_count my,
      insert_count = insert_count shared + insert_count my,
      delete_count = delete_count shared + delete_count my\<rparr>"

definition join_threads ::
  "'d::{linorder,plus} globals \<Rightarrow> 'd my_rand_h \<Rightarrow> nat list \<Rightarrow> counters" where
  "join_threads g r merge_order =
     foldl (\<lambda>shared my_rank. merge_counts shared (snd (Thread_work g r my_rank)))
       no_counts merge_order"

text \<open>
  The loop of \<^verbatim>\<open>main\<close> that fills the list before the threads start:
  \<^verbatim>\<open>while (i < inserts_in_main && attempts < 2 * inserts_in_main)\<close>.
\<close>

function populate ::
  "(nat \<Rightarrow> nat \<times> nat) \<Rightarrow> int \<Rightarrow> int \<Rightarrow> int \<Rightarrow> nat \<Rightarrow> int list \<Rightarrow> int \<times> int list" where
  "populate rand inserts_in_main i attempts seed chain =
     (if i < inserts_in_main \<and> attempts < 2 * inserts_in_main then
        (case rand seed of (x, seed1) \<Rightarrow>
         case Insert (int (x mod MAX_KEY)) chain of (success, chain1) \<Rightarrow>
           populate rand inserts_in_main (if success \<noteq> 0 then i + 1 else i) (attempts + 1)
             seed1 chain1)
      else (i, chain))"
  by pat_completeness auto
termination
  by (relation "measure (\<lambda>(rand, inserts_in_main, i, attempts, seed, chain).
        nat (2 * inserts_in_main - attempts))") auto

declare populate.simps [simp del]

text \<open>
  What the process leaves: its exit status and what it wrote. Numbers printed with a label
  are kept as numbers; the elapsed time is a reading of the clock and is kept as a mark.
\<close>

datatype printed = Prompt string | Report string int | Elapsed_time

record outcome =
  exit_status :: int
  to_stderr :: "string list"
  to_stdout :: "printed list"

text \<open>\<^verbatim>\<open>Usage\<close>: \<^verbatim>\<open>fprintf(stderr, "usage: %s <thread_count>\n", prog_name); exit(0);\<close>\<close>

definition Usage :: "string \<Rightarrow> outcome" where
  "Usage prog_name =
     \<lparr>exit_status = 0,
      to_stderr = [''usage: '' @ prog_name @ '' <thread_count>'' @ [CHR 0x0A]],
      to_stdout = []\<rparr>"

text \<open>The four values \<^verbatim>\<open>Get_input\<close> reads with \<^verbatim>\<open>scanf\<close>, and the prompts it prints.\<close>

record 'd stdin_values =
  in_inserts_in_main :: int
  in_total_ops :: int
  in_search_percent :: 'd
  in_insert_percent :: 'd

definition prompts :: "printed list" where
  "prompts =
     [Prompt ''How many keys should be inserted in the main thread?'',
      Prompt ''How many ops total should be executed?'',
      Prompt ''Percent of ops that should be searches? (between 0 and 1)'',
      Prompt ''Percent of ops that should be inserts? (between 0 and 1)'']"

text \<open>
  \<^verbatim>\<open>main\<close>. Its inputs are \<^verbatim>\<open>argc\<close>, \<^verbatim>\<open>argv[0]\<close>, the value \<^verbatim>\<open>strtol\<close> gives for
  \<^verbatim>\<open>argv[1]\<close>, the values read from the standard input, the generators, and the order in
  which the workers merged their counters. \<^verbatim>\<open>Usage\<close> ends the process, so nothing after it
  runs when \<^verbatim>\<open>argc != 2\<close>. The result of \<^verbatim>\<open>malloc\<close> for the thread handles is not tested
  by the source and is taken to be a valid block here. \<^verbatim>\<open>delete_percent\<close>, which
  \<^verbatim>\<open>Get_input\<close> computes, is read nowhere and is left out.
\<close>

definition main ::
  "int \<Rightarrow> string \<Rightarrow> int \<Rightarrow> 'd::{linorder,plus} stdin_values \<Rightarrow> 'd my_rand_h \<Rightarrow> nat list \<Rightarrow> outcome" where
  "main argc prog_name strtol_value input r merge_order =
     (if argc \<noteq> 2 then Usage prog_name
      else
        (let g = \<lparr>thread_count = strtol_value, total_ops = in_total_ops input,
                  search_percent = in_search_percent input,
                  insert_percent = in_insert_percent input\<rparr>;
             filled = populate (my_rand r) (in_inserts_in_main input) 0 0 1 [];
             shared = join_threads g r merge_order
         in \<lparr>exit_status = 0,
             to_stderr = [],
             to_stdout = prompts @
               [Report ''Inserted keys in empty list'' (fst filled),
                Elapsed_time,
                Report ''Total ops = '' (total_ops g),
                Report ''member ops = '' (member_count shared),
                Report ''insert ops = '' (insert_count shared),
                Report ''delete ops = '' (delete_count shared)]\<rparr>))"

section \<open>Invariants used in the proofs\<close>

text \<open>The fields of the lock never show a writer together with a positive reader count.\<close>

definition excl :: "my_rwlock_t \<Rightarrow> bool" where
  "excl s = (writer_active s = 0 \<or> active_readers s \<le> 0)"

text \<open>
  In a system of threads the four fields count the threads at the places they stand for,
  at most one thread is writing, and none reads while one writes.
\<close>

definition at_place :: "place \<Rightarrow> system \<Rightarrow> int" where
  "at_place p c = int (count (mset (places c)) p)"

definition consistent :: "system \<Rightarrow> bool" where
  "consistent c =
     (active_readers (lock c) = at_place Reading c \<and>
      waiting_readers (lock c) = at_place Rd_waiting c \<and>
      waiting_writers (lock c) = at_place Wr_waiting c \<and>
      writer_active (lock c) = at_place Writing c \<and>
      at_place Writing c \<le> 1 \<and>
      (at_place Writing c = 0 \<or> at_place Reading c = 0))"

text \<open>The number of operations a set of counters stands for.\<close>

definition total :: "counters \<Rightarrow> int" where
  "total cs = member_count cs + insert_count cs + delete_count cs"

section \<open>Properties of the list\<close>

lemma walk_takeWhile:
  "walk v passed chain =
     (passed @ takeWhile (\<lambda>d. d < v) chain, dropWhile (\<lambda>d. d < v) chain)"
  by (induction chain arbitrary: passed) auto

lemma walk_from_head:
  assumes "walk v [] chain = (passed, cur)"
  shows "chain = passed @ cur"
    and "\<forall>a \<in> set passed. a < v"
    and "cur = [] \<or> \<not> hd cur < v"
proof -
  from assms have p: "passed = takeWhile (\<lambda>d. d < v) chain"
    and c: "cur = dropWhile (\<lambda>d. d < v) chain"
    by (simp_all add: walk_takeWhile)
  show "chain = passed @ cur" by (simp add: p c)
  show "\<forall>a \<in> set passed. a < v" by (auto simp: p dest: set_takeWhileD)
  show "cur = [] \<or> \<not> hd cur < v" unfolding c by (metis hd_dropWhile)
qed

lemma Insert_ascending:
  assumes "ascending chain"
  shows "ascending (snd (Insert v chain))"
proof -
  obtain passed cur where w: "walk v [] chain = (passed, cur)"
    by (cases "walk v [] chain")
  note facts = walk_from_head [OF w]
  show ?thesis
  proof (cases cur)
    case Nil
    with w facts assms show ?thesis
      by (auto simp: Insert_def ascending_def sorted_wrt_append)
  next
    case (Cons d rest)
    with w facts assms show ?thesis
      by (fastforce simp: Insert_def ascending_def sorted_wrt_append)
  qed
qed

lemma Delete_ascending:
  assumes "ascending chain"
  shows "ascending (snd (Delete v chain))"
proof -
  obtain passed cur where w: "walk v [] chain = (passed, cur)"
    by (cases "walk v [] chain")
  note facts = walk_from_head [OF w]
  show ?thesis
  proof (cases cur)
    case Nil
    with w assms show ?thesis by (simp add: Delete_def)
  next
    case (Cons d rest)
    with w facts assms show ?thesis
      by (auto simp: Delete_def ascending_def sorted_wrt_append)
  qed
qed

lemma apply_op_ascending: "ascending chain \<Longrightarrow> ascending (apply_op operation chain)"
  by (cases operation) (simp_all add: Insert_ascending Delete_ascending)

lemma apply_ops_ascending: "ascending chain \<Longrightarrow> ascending (apply_ops calls chain)"
  by (induction calls arbitrary: chain) (simp_all add: apply_op_ascending)

text \<open>
  Claim C7. For every sorted chain and every key that occurs in it, \<^verbatim>\<open>Insert\<close> of that
  key returns 0 and leaves the chain as it was: the same keys in the same order, hence the
  same length.
\<close>

theorem Insert_present:
  assumes "sorted chain" and "v \<in> set chain"
  shows "Insert v chain = (0, chain)"
proof -
  obtain passed cur where w: "walk v [] chain = (passed, cur)"
    by (cases "walk v [] chain")
  note facts = walk_from_head [OF w]
  from facts(1,2) assms(2) have vcur: "v \<in> set cur" by auto
  then obtain d rest where cur: "cur = d # rest" by (cases cur) auto
  with facts(3) have "\<not> d < v" by simp
  moreover have "sorted cur"
    using assms(1) facts(1) by (simp add: sorted_append)
  then have "d \<le> v" using vcur cur by auto
  ultimately have "d = v" by simp
  with w cur show ?thesis by (simp add: Insert_def)
qed

theorem Insert_present_witness:
  "sorted [1, 5, 9 :: int] \<and> (5 :: int) \<in> set [1, 5, 9] \<and> Insert 5 [1, 5, 9] = (0, [1, 5, 9])"
proof -
  have s: "sorted [1, 5, 9 :: int]" and m: "(5 :: int) \<in> set [1, 5, 9]" by simp_all
  from Insert_present [OF s m] s m show ?thesis by simp
qed

text \<open>
  Claim C8. From a chain whose keys are strictly ascending (the empty chain is one), every
  sequence of \<^verbatim>\<open>Insert\<close> and \<^verbatim>\<open>Delete\<close> calls run one after the other keeps the keys
  strictly ascending after each call: the chain after the first \<open>k\<close> calls is ascending for
  every \<open>k\<close> up to the length of the sequence.
\<close>

theorem list_stays_ascending:
  assumes "ascending chain"
  shows "\<forall>k \<le> length calls. ascending (apply_ops (take k calls) chain)"
  using assms by (simp add: apply_ops_ascending)

theorem list_stays_ascending_witness:
  "ascending [1, 5, 9] \<and>
   apply_ops (take 2 [Do_Insert 4, Do_Delete 1, Do_Insert 4]) [1, 5, 9] = [4, 5, 9] \<and>
   ascending (apply_ops (take 2 [Do_Insert 4, Do_Delete 1, Do_Insert 4]) [1, 5, 9])"
proof -
  have a: "ascending [1, 5, 9]" by (simp add: ascending_def)
  have k: "(2 :: nat) \<le> length [Do_Insert 4, Do_Delete 1, Do_Insert 4]" by simp
  have r: "apply_ops (take 2 [Do_Insert 4, Do_Delete 1, Do_Insert 4]) [1, 5, 9] = [4, 5, 9]"
    by (simp add: Insert_def Delete_def)
  from list_stays_ascending [OF a, rule_format, OF k] a r show ?thesis by simp
qed

section \<open>Properties of the lock\<close>

lemmas lock_defs = rd_enter_def rd_must_wait_def rd_admit_def wr_enter_def wr_must_wait_def
  wr_admit_def unlock_section_def

lemma fire_excl: "excl s \<Longrightarrow> fire a s = Some s' \<Longrightarrow> excl s'"
  by (cases a) (auto simp: excl_def lock_defs Let_def split: if_splits)

lemma fire_all_excl: "excl s \<Longrightarrow> fire_all as s = Some s' \<Longrightarrow> excl s'"
proof (induction as arbitrary: s)
  case Nil
  then show ?case by simp
next
  case (Cons a as)
  then show ?case by (auto split: option.splits dest: fire_excl)
qed

lemma excl_lock0: "excl lock0"
  by (simp add: excl_def lock0_def)

text \<open>
  Claim C1. From the fields \<^verbatim>\<open>my_rwlock_init\<close> writes (all zero), after any sequence of
  steps of \<^verbatim>\<open>my_rwlock_rdlock\<close>, \<^verbatim>\<open>my_rwlock_wrlock\<close> and \<^verbatim>\<open>my_rwlock_unlock\<close>, taken in
  any order by anyone, \<^verbatim>\<open>writer_active\<close> is not set while \<^verbatim>\<open>active_readers > 0\<close>.
\<close>

theorem mutual_exclusion:
  assumes "fire_all as lock0 = Some s"
  shows "\<not> (writer_active s \<noteq> 0 \<and> active_readers s > 0)"
proof -
  from excl_lock0 assms have "excl s" by (rule fire_all_excl)
  then show ?thesis by (auto simp: excl_def)
qed

theorem mutual_exclusion_witness:
  "fire_all [Rd_enter, Rd_pass, Wr_enter, Unlock_step, Wr_pass, Rd_enter] lock0 =
     Some \<lparr>active_readers = 0, waiting_readers = 1, waiting_writers = 0, writer_active = 1\<rparr> \<and>
   \<not> (writer_active \<lparr>active_readers = 0, waiting_readers = 1, waiting_writers = 0,
          writer_active = 1\<rparr> \<noteq> 0 \<and>
      active_readers \<lparr>active_readers = 0, waiting_readers = 1, waiting_writers = 0,
          writer_active = 1\<rparr> > 0)"
proof -
  have h: "fire_all [Rd_enter, Rd_pass, Wr_enter, Unlock_step, Wr_pass, Rd_enter] lock0 =
     Some \<lparr>active_readers = 0, waiting_readers = 1, waiting_writers = 0, writer_active = 1\<rparr>"
    by (simp add: lock0_def lock_defs)
  from mutual_exclusion [OF h] h show ?thesis by simp
qed

subsection \<open>Threads that unlock only what they hold\<close>

lemma at_place_nonneg: "0 \<le> at_place p c"
  by (simp add: at_place_def)

lemma at_place_pos: "t < length (places c) \<Longrightarrow> places c ! t = p \<Longrightarrow> 1 \<le> at_place p c"
  unfolding at_place_def using count_greater_eq_one_iff nth_mem_mset by fastforce

lemma at_place_move:
  assumes "t < length (places c)"
  shows "at_place p (move t q s c) =
     at_place p c - (if places c ! t = p then 1 else 0) + (if q = p then 1 else 0)"
proof -
  have "1 \<le> count (mset (places c)) (places c ! t)"
    using assms by (simp add: Suc_le_eq)
  then show ?thesis
    using assms by (auto simp: at_place_def move_def mset_update)
qed

lemma lock_move: "lock (move t q s c) = s"
  by (simp add: move_def)

lemma step_consistent:
  assumes "consistent c" and "step e c = Some c'"
  shows "consistent c'"
proof -
  obtain t a where e: "e = (t, a)" by (cases e)
  from assms(2) e have t: "t < length (places c)" by (auto split: if_splits)
  note pos = at_place_pos [OF t] and mv = at_place_move [OF t]
  show ?thesis
    using assms t pos at_place_nonneg [of Reading c] unfolding e consistent_def
    by (cases a; cases "places c ! t")
       (auto simp: mv lock_move lock_defs Let_def split: if_splits)
qed

lemma run_consistent: "consistent c \<Longrightarrow> run es c = Some c' \<Longrightarrow> consistent c'"
proof (induction es arbitrary: c)
  case Nil
  then show ?case by simp
next
  case (Cons e es)
  then show ?case by (auto split: option.splits dest: step_consistent)
qed

lemma start_consistent: "consistent (start n)"
  by (simp add: consistent_def at_place_def start_def lock0_def)

lemma reachable_consistent: "run es (start n) = Some c \<Longrightarrow> consistent c"
  using run_consistent start_consistent by blast

lemma step_fire:
  assumes "step e c = Some c'"
  shows "lock c' = lock c \<or> fire (snd e) (lock c) = Some (lock c')"
proof -
  obtain t a where e: "e = (t, a)" by (cases e)
  show ?thesis
    using assms unfolding e
    by (cases a; cases "places c ! t") (auto simp: move_def split: if_splits)
qed

lemma run_fire_all:
  "run es c = Some c' \<Longrightarrow> \<exists>as. fire_all as (lock c) = Some (lock c')"
proof (induction es arbitrary: c)
  case Nil
  have "fire_all [] (lock c) = Some (lock c)" by simp
  with Nil show ?case by (metis option.inject run.simps(1))
next
  case (Cons e es)
  then obtain c1 where c1: "step e c = Some c1" and rest: "run es c1 = Some c'"
    by (auto split: option.splits)
  from Cons.IH [OF rest] obtain as where as: "fire_all as (lock c1) = Some (lock c')" by blast
  from step_fire [OF c1] show ?case
  proof
    assume "lock c1 = lock c"
    with as show ?thesis by auto
  next
    assume "fire (snd e) (lock c) = Some (lock c1)"
    with as have "fire_all (snd e # as) (lock c) = Some (lock c')" by simp
    then show ?thesis by blast
  qed
qed

text \<open>
  The lock of a system of threads is reached by steps of \<open>fire\<close>, so what holds of
  every sequence of such steps holds of it.
\<close>

lemma system_excl:
  assumes "run es (start n) = Some c"
  shows "excl (lock c)"
proof -
  from run_fire_all [OF assms] obtain as where "fire_all as lock0 = Some (lock c)"
    by (auto simp: start_def)
  with excl_lock0 show ?thesis by (rule fire_all_excl)
qed

text \<open>
  Claim C3. In a system of threads that follow the pattern of \<^verbatim>\<open>Thread_work\<close> (a thread
  calls \<^verbatim>\<open>my_rwlock_unlock\<close> only between the return of a lock call and its next one), in
  every state reached from the initial one: a thread waiting in \<^verbatim>\<open>my_rwlock_rdlock\<close>
  becomes a reader (\<^verbatim>\<open>waiting_readers\<close> one less, \<^verbatim>\<open>active_readers\<close> one more) only in a
  state with \<^verbatim>\<open>writer_active == 0\<close> and \<^verbatim>\<open>waiting_writers == 0\<close>, and a thread waiting in
  \<^verbatim>\<open>my_rwlock_wrlock\<close> becomes the writer (\<^verbatim>\<open>writer_active\<close> set to 1) only in a state with
  \<^verbatim>\<open>active_readers == 0\<close> and \<^verbatim>\<open>writer_active == 0\<close>.
\<close>

theorem admission_guards:
  assumes "run es (start n) = Some c"
  shows "(step (t, Rd_pass) c = Some c' \<and> places c' ! t = Reading \<longrightarrow>
            places c ! t = Rd_waiting \<and>
            writer_active (lock c) = 0 \<and> waiting_writers (lock c) = 0 \<and>
            waiting_readers (lock c') = waiting_readers (lock c) - 1 \<and>
            active_readers (lock c') = active_readers (lock c) + 1) \<and>
         (step (t, Wr_pass) c = Some c' \<and> places c' ! t = Writing \<longrightarrow>
            places c ! t = Wr_waiting \<and>
            active_readers (lock c) = 0 \<and> writer_active (lock c) = 0 \<and>
            writer_active (lock c') = 1)"
proof -
  from assms have "consistent c" by (rule reachable_consistent)
  then have nn: "0 \<le> waiting_writers (lock c)" "0 \<le> active_readers (lock c)"
    by (simp_all add: consistent_def at_place_nonneg)
  have rd: "step (t, Rd_pass) c = Some c' \<and> places c' ! t = Reading \<longrightarrow>
            places c ! t = Rd_waiting \<and>
            writer_active (lock c) = 0 \<and> waiting_writers (lock c) = 0 \<and>
            waiting_readers (lock c') = waiting_readers (lock c) - 1 \<and>
            active_readers (lock c') = active_readers (lock c) + 1"
    using nn(1)
    by (cases "places c ! t") (auto simp: move_def lock_defs split: if_splits)
  have wr: "step (t, Wr_pass) c = Some c' \<and> places c' ! t = Writing \<longrightarrow>
            places c ! t = Wr_waiting \<and>
            active_readers (lock c) = 0 \<and> writer_active (lock c) = 0 \<and>
            writer_active (lock c') = 1"
    using nn(2)
    by (cases "places c ! t") (auto simp: move_def lock_defs split: if_splits)
  from rd wr show ?thesis by (rule conjI)
qed

theorem admission_guards_witness:
  "run [(0, Rd_enter)] (start 2) =
     Some \<lparr>lock = \<lparr>active_readers = 0, waiting_readers = 1, waiting_writers = 0,
                   writer_active = 0\<rparr>,
           places = [Rd_waiting, Idle]\<rparr> \<and>
   step (0, Rd_pass)
     \<lparr>lock = \<lparr>active_readers = 0, waiting_readers = 1, waiting_writers = 0, writer_active = 0\<rparr>,
      places = [Rd_waiting, Idle]\<rparr> =
     Some \<lparr>lock = \<lparr>active_readers = 1, waiting_readers = 0, waiting_writers = 0,
                   writer_active = 0\<rparr>,
           places = [Reading, Idle]\<rparr> \<and>
   run [(0, Rd_enter), (0, Rd_pass), (0, Unlock_step), (1, Wr_enter)] (start 2) =
     Some \<lparr>lock = \<lparr>active_readers = 0, waiting_readers = 0, waiting_writers = 1,
                   writer_active = 0\<rparr>,
           places = [Idle, Wr_waiting]\<rparr> \<and>
   step (1, Wr_pass)
     \<lparr>lock = \<lparr>active_readers = 0, waiting_readers = 0, waiting_writers = 1, writer_active = 0\<rparr>,
      places = [Idle, Wr_waiting]\<rparr> =
     Some \<lparr>lock = \<lparr>active_readers = 0, waiting_readers = 0, waiting_writers = 0,
                   writer_active = 1\<rparr>,
           places = [Idle, Writing]\<rparr>"
proof -
  let ?c1 = "\<lparr>lock = \<lparr>active_readers = 0, waiting_readers = 1, waiting_writers = 0,
                   writer_active = 0\<rparr>, places = [Rd_waiting, Idle]\<rparr>"
  let ?c2 = "\<lparr>lock = \<lparr>active_readers = 0, waiting_readers = 0, waiting_writers = 1,
                   writer_active = 0\<rparr>, places = [Idle, Wr_waiting]\<rparr>"
  have r1: "run [(0, Rd_enter)] (start 2) = Some ?c1"
    by (simp add: start_def lock0_def move_def lock_defs eval_nat_numeral)
  have r2: "run [(0, Rd_enter), (0, Rd_pass), (0, Unlock_step), (1, Wr_enter)] (start 2) = Some ?c2"
    by (simp add: start_def lock0_def move_def lock_defs eval_nat_numeral)
  show ?thesis
    using r1 r2
      admission_guards [OF r1, of 0 "\<lparr>lock = \<lparr>active_readers = 1, waiting_readers = 0,
        waiting_writers = 0, writer_active = 0\<rparr>, places = [Reading, Idle]\<rparr>"]
      admission_guards [OF r2, of 1 "\<lparr>lock = \<lparr>active_readers = 0, waiting_readers = 0,
        waiting_writers = 0, writer_active = 1\<rparr>, places = [Idle, Writing]\<rparr>"]
    by (simp add: move_def lock_defs)
qed

subsection \<open>The operations called by one thread\<close>

text \<open>
  Claim C2, as amended. When \<^verbatim>\<open>my_rwlock_unlock\<close> is called by the writer, or by the
  reader whose release brings \<^verbatim>\<open>active_readers\<close> to 0, it makes exactly one call:
  \<^verbatim>\<open>pthread_cond_signal\<close> on \<^verbatim>\<open>writers_cv\<close> if \<^verbatim>\<open>waiting_writers > 0\<close>, else
  \<^verbatim>\<open>pthread_cond_broadcast\<close> on \<^verbatim>\<open>readers_cv\<close> if \<^verbatim>\<open>waiting_readers > 0\<close>, else none.
  Called by a reader whose release leaves \<^verbatim>\<open>active_readers\<close> other than 0 it wakes
  nobody, whoever is waiting.
\<close>

theorem release_wakeups:
  "(writer_active s \<noteq> 0 \<or> active_readers s = 1 \<longrightarrow>
      snd (snd (my_rwlock_unlock rcs (Some s))) =
        (if waiting_writers s > 0 then [Cond_signal Writers_cv]
         else if waiting_readers s > 0 then [Cond_broadcast Readers_cv]
         else [])) \<and>
   (writer_active s = 0 \<and> active_readers s \<noteq> 1 \<longrightarrow>
      snd (snd (my_rwlock_unlock rcs (Some s))) = [])"
  by (simp add: my_rwlock_unlock_def unlock_section_def Let_def)

theorem release_wakeups_witness:
  "my_rwlock_unlock \<lparr>mutex_lock_rc = 0, mutex_unlock_rc = 0, cond_notify_rc = 0\<rparr>
     (Some \<lparr>active_readers = 1, waiting_readers = 3, waiting_writers = 2, writer_active = 0\<rparr>) =
     (0, Some \<lparr>active_readers = 0, waiting_readers = 3, waiting_writers = 2, writer_active = 0\<rparr>,
      [Cond_signal Writers_cv]) \<and>
   my_rwlock_unlock \<lparr>mutex_lock_rc = 0, mutex_unlock_rc = 0, cond_notify_rc = 0\<rparr>
     (Some \<lparr>active_readers = 0, waiting_readers = 3, waiting_writers = 0, writer_active = 1\<rparr>) =
     (0, Some \<lparr>active_readers = 0, waiting_readers = 3, waiting_writers = 0, writer_active = 0\<rparr>,
      [Cond_broadcast Readers_cv]) \<and>
   my_rwlock_unlock \<lparr>mutex_lock_rc = 0, mutex_unlock_rc = 0, cond_notify_rc = 0\<rparr>
     (Some \<lparr>active_readers = 3, waiting_readers = 0, waiting_writers = 2, writer_active = 0\<rparr>) =
     (0, Some \<lparr>active_readers = 2, waiting_readers = 0, waiting_writers = 2, writer_active = 0\<rparr>,
      [])"
  using
    release_wakeups [of "\<lparr>active_readers = 1, waiting_readers = 3, waiting_writers = 2,
      writer_active = 0\<rparr>" "\<lparr>mutex_lock_rc = 0, mutex_unlock_rc = 0, cond_notify_rc = 0\<rparr>"]
    release_wakeups [of "\<lparr>active_readers = 0, waiting_readers = 3, waiting_writers = 0,
      writer_active = 1\<rparr>" "\<lparr>mutex_lock_rc = 0, mutex_unlock_rc = 0, cond_notify_rc = 0\<rparr>"]
    release_wakeups [of "\<lparr>active_readers = 3, waiting_readers = 0, waiting_writers = 2,
      writer_active = 0\<rparr>" "\<lparr>mutex_lock_rc = 0, mutex_unlock_rc = 0, cond_notify_rc = 0\<rparr>"]
  by (simp add: my_rwlock_unlock_def unlock_section_def)

text \<open>
  The claim as stated fails for one of two readers: three threads reach the state with two
  readers and a waiting writer, and the release of the first reader leaves
  \<^verbatim>\<open>waiting_writers > 0\<close> and signals no one.
\<close>

theorem release_wakeups_counterexample:
  "run [(0, Rd_enter), (0, Rd_pass), (1, Rd_enter), (1, Rd_pass), (2, Wr_enter)] (start 3) =
     Some \<lparr>lock = \<lparr>active_readers = 2, waiting_readers = 0, waiting_writers = 1,
                   writer_active = 0\<rparr>,
           places = [Reading, Reading, Wr_waiting]\<rparr> \<and>
   my_rwlock_unlock \<lparr>mutex_lock_rc = 0, mutex_unlock_rc = 0, cond_notify_rc = 0\<rparr>
     (Some \<lparr>active_readers = 2, waiting_readers = 0, waiting_writers = 1, writer_active = 0\<rparr>) =
     (0, Some \<lparr>active_readers = 1, waiting_readers = 0, waiting_writers = 1, writer_active = 0\<rparr>,
      []) \<and>
   waiting_writers \<lparr>active_readers = 1, waiting_readers = 0, waiting_writers = 1,
     writer_active = 0\<rparr> > 0"
  by (simp add: my_rwlock_unlock_def start_def lock0_def move_def lock_defs eval_nat_numeral)

text \<open>
  Claim C10. \<^verbatim>\<open>my_rwlock_unlock\<close> does not test that its caller holds the lock: called
  with \<^verbatim>\<open>writer_active == 0\<close> and \<^verbatim>\<open>active_readers == 0\<close> it returns 0 and leaves
  \<^verbatim>\<open>active_readers\<close> at -1, waking nobody.
\<close>

theorem unlock_unheld:
  assumes "writer_active s = 0" and "active_readers s = 0"
  shows "my_rwlock_unlock rcs (Some s) = (0, Some (s\<lparr>active_readers := - 1\<rparr>), [])"
  using assms by (simp add: my_rwlock_unlock_def unlock_section_def Let_def)

theorem unlock_unheld_witness:
  "writer_active lock0 = 0 \<and> active_readers lock0 = 0 \<and>
   my_rwlock_init \<lparr>mutex_init_rc = 0, readers_cv_init_rc = 0, writers_cv_init_rc = 0\<rparr>
     (Some \<lparr>active_readers = 7, waiting_readers = 7, waiting_writers = 7, writer_active = 7\<rparr>) =
     (0, Some lock0) \<and>
   my_rwlock_unlock \<lparr>mutex_lock_rc = 0, mutex_unlock_rc = 0, cond_notify_rc = 0\<rparr> (Some lock0) =
     (0, Some \<lparr>active_readers = - 1, waiting_readers = 0, waiting_writers = 0, writer_active = 0\<rparr>,
      [])"
proof -
  have w: "writer_active lock0 = 0" and a: "active_readers lock0 = 0"
    by (simp_all add: lock0_def)
  from unlock_unheld [OF w a, of "\<lparr>mutex_lock_rc = 0, mutex_unlock_rc = 0, cond_notify_rc = 0\<rparr>"]
    w a show ?thesis
    by (simp add: lock0_def my_rwlock_init_def)
qed

lemma rd_wait_codes: "rd_wait (map (apfst f) wakeups) s = rd_wait wakeups s"
  by (induction wakeups s rule: rd_wait.induct) simp_all

lemma wr_wait_codes: "wr_wait (map (apfst f) wakeups) s = wr_wait wakeups s"
  by (induction wakeups s rule: wr_wait.induct) simp_all

lemma rd_wait_free: "\<not> rd_must_wait s \<Longrightarrow> rd_wait wakeups (rd_enter s) = Some (rd_enter s)"
  by (cases wakeups) (auto simp: lock_defs)

lemma wr_wait_free: "\<not> wr_must_wait s \<Longrightarrow> wr_wait wakeups (wr_enter s) = Some (wr_enter s)"
  by (cases wakeups) (auto simp: lock_defs)

lemma rd_must_wait_enter: "rd_must_wait (rd_enter s) = rd_must_wait s"
  by (simp add: lock_defs)

lemma wr_must_wait_enter: "wr_must_wait (wr_enter s) = wr_must_wait s"
  by (simp add: lock_defs)

text \<open>
  Claim C4, as amended. For a non-null handle, \<^verbatim>\<open>my_rwlock_unlock\<close> returns 0, and
  \<^verbatim>\<open>my_rwlock_rdlock\<close> and \<^verbatim>\<open>my_rwlock_wrlock\<close> return 0 whenever they return; they
  return at once when their wait condition is false on entry. What the three operations
  do and return is the same whatever values the mutex and condition-variable operations
  gave back, so a failure of a primitive is not passed on. The wait loops do not look at
  the value \<^verbatim>\<open>pthread_cond_wait\<close> returns either: after each of its returns, failed or
  not, a loop that had to wait goes on from the fields it finds, and where the condition
  still holds the thread waits once more and the call has not returned.
\<close>

theorem lock_return_codes:
  "fst (my_rwlock_unlock rcs (Some s)) = 0 \<and>
   (\<forall>r. my_rwlock_rdlock rcs wakeups (Some s) = Some r \<longrightarrow> fst r = 0) \<and>
   (\<forall>r. my_rwlock_wrlock rcs wakeups (Some s) = Some r \<longrightarrow> fst r = 0) \<and>
   (\<not> rd_must_wait s \<longrightarrow>
      my_rwlock_rdlock rcs wakeups (Some s) = Some (0, Some (rd_admit (rd_enter s)))) \<and>
   (\<not> wr_must_wait s \<longrightarrow>
      my_rwlock_wrlock rcs wakeups (Some s) = Some (0, Some (wr_admit (wr_enter s)))) \<and>
   my_rwlock_unlock rcs' (Some s) = my_rwlock_unlock rcs (Some s) \<and>
   my_rwlock_rdlock rcs' (map (apfst f) wakeups) (Some s) =
     my_rwlock_rdlock rcs wakeups (Some s) \<and>
   my_rwlock_wrlock rcs' (map (apfst f) wakeups) (Some s) =
     my_rwlock_wrlock rcs wakeups (Some s) \<and>
   (rd_must_wait s \<longrightarrow> rd_wait ((rc, s') # wakeups) s = rd_wait wakeups s') \<and>
   (wr_must_wait s \<longrightarrow> wr_wait ((rc, s') # wakeups) s = wr_wait wakeups s') \<and>
   (rd_must_wait s \<and> rd_must_wait s' \<longrightarrow>
      my_rwlock_rdlock rcs [(rc, s')] (Some s) = None) \<and>
   (wr_must_wait s \<and> wr_must_wait s' \<longrightarrow>
      my_rwlock_wrlock rcs [(rc, s')] (Some s) = None)"
proof -
  have ret: "fst (my_rwlock_unlock rcs (Some s)) = 0"
    "\<forall>r. my_rwlock_rdlock rcs wakeups (Some s) = Some r \<longrightarrow> fst r = 0"
    "\<forall>r. my_rwlock_wrlock rcs wakeups (Some s) = Some r \<longrightarrow> fst r = 0"
    by (auto simp: my_rwlock_unlock_def my_rwlock_rdlock_def my_rwlock_wrlock_def
             split: option.splits)
  have free: "\<not> rd_must_wait s \<longrightarrow>
      my_rwlock_rdlock rcs wakeups (Some s) = Some (0, Some (rd_admit (rd_enter s)))"
    "\<not> wr_must_wait s \<longrightarrow>
      my_rwlock_wrlock rcs wakeups (Some s) = Some (0, Some (wr_admit (wr_enter s)))"
    by (simp_all add: my_rwlock_rdlock_def my_rwlock_wrlock_def rd_wait_free wr_wait_free)
  have codes: "my_rwlock_unlock rcs' (Some s) = my_rwlock_unlock rcs (Some s)"
    "my_rwlock_rdlock rcs' (map (apfst f) wakeups) (Some s) =
       my_rwlock_rdlock rcs wakeups (Some s)"
    "my_rwlock_wrlock rcs' (map (apfst f) wakeups) (Some s) =
       my_rwlock_wrlock rcs wakeups (Some s)"
    by (simp_all add: my_rwlock_unlock_def my_rwlock_rdlock_def my_rwlock_wrlock_def
          rd_wait_codes wr_wait_codes)
  have again: "rd_must_wait s \<longrightarrow> rd_wait ((rc, s') # wakeups) s = rd_wait wakeups s'"
    "wr_must_wait s \<longrightarrow> wr_wait ((rc, s') # wakeups) s = wr_wait wakeups s'"
    by simp_all
  have parked: "rd_must_wait s \<and> rd_must_wait s' \<longrightarrow>
      my_rwlock_rdlock rcs [(rc, s')] (Some s) = None"
    "wr_must_wait s \<and> wr_must_wait s' \<longrightarrow>
      my_rwlock_wrlock rcs [(rc, s')] (Some s) = None"
    by (simp_all add: my_rwlock_rdlock_def my_rwlock_wrlock_def rd_must_wait_enter
          wr_must_wait_enter)
  from ret free codes again parked show ?thesis by blast
qed

theorem lock_return_codes_witness:
  "\<not> rd_must_wait lock0 \<and> \<not> wr_must_wait lock0 \<and>
   fst (my_rwlock_unlock \<lparr>mutex_lock_rc = 22, mutex_unlock_rc = 1, cond_notify_rc = 22\<rparr>
          (Some lock0)) = 0 \<and>
   my_rwlock_rdlock \<lparr>mutex_lock_rc = 22, mutex_unlock_rc = 1, cond_notify_rc = 22\<rparr> []
     (Some lock0) =
     Some (0, Some \<lparr>active_readers = 1, waiting_readers = 0, waiting_writers = 0,
                    writer_active = 0\<rparr>) \<and>
   my_rwlock_wrlock \<lparr>mutex_lock_rc = 22, mutex_unlock_rc = 1, cond_notify_rc = 22\<rparr> []
     (Some lock0) =
     Some (0, Some \<lparr>active_readers = 0, waiting_readers = 0, waiting_writers = 0,
                    writer_active = 1\<rparr>) \<and>
   rd_must_wait \<lparr>active_readers = 0, waiting_readers = 0, waiting_writers = 0,
     writer_active = 1\<rparr> \<and>
   rd_must_wait \<lparr>active_readers = 0, waiting_readers = 1, waiting_writers = 0,
     writer_active = 1\<rparr> \<and>
   my_rwlock_rdlock \<lparr>mutex_lock_rc = 0, mutex_unlock_rc = 0, cond_notify_rc = 0\<rparr>
     [(22, \<lparr>active_readers = 0, waiting_readers = 1, waiting_writers = 0, writer_active = 1\<rparr>)]
     (Some \<lparr>active_readers = 0, waiting_readers = 0, waiting_writers = 0, writer_active = 1\<rparr>) =
     None \<and>
   wr_must_wait \<lparr>active_readers = 1, waiting_readers = 0, waiting_writers = 0,
     writer_active = 0\<rparr> \<and>
   wr_must_wait \<lparr>active_readers = 1, waiting_readers = 0, waiting_writers = 1,
     writer_active = 0\<rparr> \<and>
   my_rwlock_wrlock \<lparr>mutex_lock_rc = 0, mutex_unlock_rc = 0, cond_notify_rc = 0\<rparr>
     [(22, \<lparr>active_readers = 1, waiting_readers = 0, waiting_writers = 1, writer_active = 0\<rparr>)]
     (Some \<lparr>active_readers = 1, waiting_readers = 0, waiting_writers = 0, writer_active = 0\<rparr>) =
     None"
proof -
  have h: "\<not> rd_must_wait lock0" "\<not> wr_must_wait lock0"
    by (simp_all add: lock0_def lock_defs)
  have b: "rd_must_wait \<lparr>active_readers = 0, waiting_readers = 0, waiting_writers = 0,
      writer_active = 1\<rparr>"
    "rd_must_wait \<lparr>active_readers = 0, waiting_readers = 1, waiting_writers = 0,
      writer_active = 1\<rparr>"
    "wr_must_wait \<lparr>active_readers = 1, waiting_readers = 0, waiting_writers = 0,
      writer_active = 0\<rparr>"
    "wr_must_wait \<lparr>active_readers = 1, waiting_readers = 0, waiting_writers = 1,
      writer_active = 0\<rparr>"
    by (simp_all add: lock_defs)
  have free: "fst (my_rwlock_unlock \<lparr>mutex_lock_rc = 22, mutex_unlock_rc = 1,
        cond_notify_rc = 22\<rparr> (Some lock0)) = 0 \<and>
      my_rwlock_rdlock \<lparr>mutex_lock_rc = 22, mutex_unlock_rc = 1, cond_notify_rc = 22\<rparr> []
        (Some lock0) = Some (0, Some (rd_admit (rd_enter lock0))) \<and>
      my_rwlock_wrlock \<lparr>mutex_lock_rc = 22, mutex_unlock_rc = 1, cond_notify_rc = 22\<rparr> []
        (Some lock0) = Some (0, Some (wr_admit (wr_enter lock0)))"
    using h
      lock_return_codes [of "\<lparr>mutex_lock_rc = 22, mutex_unlock_rc = 1, cond_notify_rc = 22\<rparr>"
        lock0 "[]"]
    by blast
  have rd: "my_rwlock_rdlock \<lparr>mutex_lock_rc = 0, mutex_unlock_rc = 0, cond_notify_rc = 0\<rparr>
     [(22, \<lparr>active_readers = 0, waiting_readers = 1, waiting_writers = 0, writer_active = 1\<rparr>)]
     (Some \<lparr>active_readers = 0, waiting_readers = 0, waiting_writers = 0, writer_active = 1\<rparr>) =
     None"
    using b(1,2)
      lock_return_codes [of "\<lparr>mutex_lock_rc = 0, mutex_unlock_rc = 0, cond_notify_rc = 0\<rparr>"
        "\<lparr>active_readers = 0, waiting_readers = 0, waiting_writers = 0, writer_active = 1\<rparr>"
        "[]" _ _ 22
        "\<lparr>active_readers = 0, waiting_readers = 1, waiting_writers = 0, writer_active = 1\<rparr>"]
    by blast
  have wr: "my_rwlock_wrlock \<lparr>mutex_lock_rc = 0, mutex_unlock_rc = 0, cond_notify_rc = 0\<rparr>
     [(22, \<lparr>active_readers = 1, waiting_readers = 0, waiting_writers = 1, writer_active = 0\<rparr>)]
     (Some \<lparr>active_readers = 1, waiting_readers = 0, waiting_writers = 0, writer_active = 0\<rparr>) =
     None"
    using b(3,4)
      lock_return_codes [of "\<lparr>mutex_lock_rc = 0, mutex_unlock_rc = 0, cond_notify_rc = 0\<rparr>"
        "\<lparr>active_readers = 1, waiting_readers = 0, waiting_writers = 0, writer_active = 0\<rparr>"
        "[]" _ _ 22
        "\<lparr>active_readers = 1, waiting_readers = 0, waiting_writers = 1, writer_active = 0\<rparr>"]
    by blast
  have e: "rd_admit (rd_enter lock0) = \<lparr>active_readers = 1, waiting_readers = 0,
        waiting_writers = 0, writer_active = 0\<rparr>"
    "wr_admit (wr_enter lock0) = \<lparr>active_readers = 0, waiting_readers = 0,
        waiting_writers = 0, writer_active = 1\<rparr>"
    by (simp_all add: lock0_def lock_defs)
  from h b free rd wr show ?thesis unfolding e by blast
qed

text \<open>
  The claim as stated fails where \<^verbatim>\<open>pthread_mutex_lock\<close> gives 22 to
  \<^verbatim>\<open>my_rwlock_unlock\<close>, and where it and \<^verbatim>\<open>pthread_cond_wait\<close> give 22 to
  \<^verbatim>\<open>my_rwlock_rdlock\<close>: both calls return 0.
\<close>

theorem primitive_failure_counterexample:
  "mutex_lock_rc \<lparr>mutex_lock_rc = 22, mutex_unlock_rc = 0, cond_notify_rc = 0\<rparr> \<noteq> 0 \<and>
   fst (my_rwlock_unlock \<lparr>mutex_lock_rc = 22, mutex_unlock_rc = 0, cond_notify_rc = 0\<rparr>
          (Some \<lparr>active_readers = 1, waiting_readers = 0, waiting_writers = 0,
                 writer_active = 0\<rparr>)) = 0 \<and>
   my_rwlock_rdlock \<lparr>mutex_lock_rc = 22, mutex_unlock_rc = 0, cond_notify_rc = 0\<rparr>
     [(22, \<lparr>active_readers = 0, waiting_readers = 1, waiting_writers = 0, writer_active = 0\<rparr>)]
     (Some \<lparr>active_readers = 0, waiting_readers = 0, waiting_writers = 0, writer_active = 1\<rparr>) =
     Some (0, Some \<lparr>active_readers = 1, waiting_readers = 0, waiting_writers = 0,
                    writer_active = 0\<rparr>)"
  by (simp add: my_rwlock_unlock_def my_rwlock_rdlock_def lock_defs)

section \<open>Properties of the workers and of the process\<close>

text \<open>
  Claim C9. In an iteration of the worker loop the drawn \<^verbatim>\<open>which_op\<close> selects the
  operation by the two thresholds \<^verbatim>\<open>search_percent\<close> and
  \<^verbatim>\<open>search_percent + insert_percent\<close> (the second not below the first): below the first,
  \<^verbatim>\<open>Member\<close> between a read lock and its unlock, and only the member counter goes up;
  from the first to below the second, \<^verbatim>\<open>Insert\<close> between a write lock and its unlock,
  and only the insert counter goes up; at or above the second, \<^verbatim>\<open>Delete\<close> between a write
  lock and its unlock, and only the delete counter goes up.
\<close>

theorem classification:
  fixes g :: "'d::{linorder,plus} globals"
  assumes "search_percent g \<le> search_percent g + insert_percent g"
  shows "(which_op < search_percent g \<longrightarrow>
           iteration g which_op val my =
             ([Rwlock_rdlock, Call_Member val, Rwlock_unlock],
              my\<lparr>member_count := member_count my + 1\<rparr>)) \<and>
         (search_percent g \<le> which_op \<and> which_op < search_percent g + insert_percent g \<longrightarrow>
           iteration g which_op val my =
             ([Rwlock_wrlock, Call_Insert val, Rwlock_unlock],
              my\<lparr>insert_count := insert_count my + 1\<rparr>)) \<and>
         (search_percent g + insert_percent g \<le> which_op \<longrightarrow>
           iteration g which_op val my =
             ([Rwlock_wrlock, Call_Delete val, Rwlock_unlock],
              my\<lparr>delete_count := delete_count my + 1\<rparr>))"
  using assms by (auto simp: iteration_def)

theorem classification_witness:
  "(0.8 :: real) \<le> 0.8 + 0.1 \<and>
   iteration \<lparr>thread_count = 4, total_ops = 10, search_percent = 0.8 :: real, insert_percent = 0.1\<rparr>
     0.3 17 no_counts =
     ([Rwlock_rdlock, Call_Member 17, Rwlock_unlock],
      \<lparr>member_count = 1, insert_count = 0, delete_count = 0\<rparr>) \<and>
   iteration \<lparr>thread_count = 4, total_ops = 10, search_percent = 0.8 :: real, insert_percent = 0.1\<rparr>
     0.8 17 no_counts =
     ([Rwlock_wrlock, Call_Insert 17, Rwlock_unlock],
      \<lparr>member_count = 0, insert_count = 1, delete_count = 0\<rparr>) \<and>
   iteration \<lparr>thread_count = 4, total_ops = 10, search_percent = 0.8 :: real, insert_percent = 0.1\<rparr>
     0.95 17 no_counts =
     ([Rwlock_wrlock, Call_Delete 17, Rwlock_unlock],
      \<lparr>member_count = 0, insert_count = 0, delete_count = 1\<rparr>)"
proof -
  let ?g = "\<lparr>thread_count = 4, total_ops = 10, search_percent = 0.8 :: real, insert_percent = 0.1\<rparr>"
  have h: "search_percent ?g \<le> search_percent ?g + insert_percent ?g" by simp
  from classification [OF h, of "0.3" 17 no_counts] classification [OF h, of "0.8" 17 no_counts]
    classification [OF h, of "0.95" 17 no_counts]
  show ?thesis by (simp add: no_counts_def)
qed

subsection \<open>The counters\<close>

lemma iteration_total: "total (snd (iteration g which_op val my)) = total my + 1"
  by (simp add: iteration_def total_def)

lemma thread_loop_total:
  "total (snd (thread_loop g r n i seed sofar)) = total (snd sofar) + max 0 (n - i)"
proof (induction g r n i seed sofar rule: thread_loop.induct)
  case (1 g r n i seed sofar)
  show ?case
  proof (cases "i < n")
    case False
    then show ?thesis by (subst thread_loop.simps) simp
  next
    case True
    obtain which_op seed1 where d: "my_drand r seed = (which_op, seed1)"
      by (cases "my_drand r seed")
    obtain x seed2 where x: "my_rand r seed1 = (x, seed2)"
      by (cases "my_rand r seed1")
    obtain calls my where it: "iteration g which_op (int (x mod MAX_KEY)) (snd sofar) = (calls, my)"
      by (cases "iteration g which_op (int (x mod MAX_KEY)) (snd sofar)")
    have "total my = total (snd sofar) + 1"
      using iteration_total [of g which_op "int (x mod MAX_KEY)" "snd sofar"] it by simp
    moreover have "total (snd (thread_loop g r n (i + 1) seed2 (fst sofar @ calls, my)))
        = total my + max 0 (n - (i + 1))"
      using "1.IH" [OF True d [symmetric] x [symmetric] it [symmetric]] by simp
    ultimately show ?thesis
      using True d x it by (subst thread_loop.simps) simp
  qed
qed

lemma total_no_counts: "total no_counts = 0"
  by (simp add: total_def no_counts_def)

lemma Thread_work_total:
  "total (snd (Thread_work g r my_rank)) = max 0 (c_div (total_ops g) (thread_count g))"
  unfolding Thread_work_def thread_loop_total by (simp add: total_no_counts)

lemma merge_total: "total (merge_counts shared my) = total shared + total my"
  by (simp add: merge_counts_def total_def)

lemma foldl_merge_total:
  "total (foldl (\<lambda>shared my_rank. merge_counts shared (snd (Thread_work g r my_rank)))
       shared0 ranks)
     = total shared0 + int (length ranks) * max 0 (c_div (total_ops g) (thread_count g))"
  by (induction ranks arbitrary: shared0)
     (simp_all add: merge_total Thread_work_total algebra_simps)

lemma join_threads_total:
  "total (join_threads g r merge_order)
     = int (length merge_order) * max 0 (c_div (total_ops g) (thread_count g))"
  unfolding join_threads_def foldl_merge_total by (simp add: total_no_counts)

lemma c_div_nonneg: "0 \<le> a \<Longrightarrow> 0 < b \<Longrightarrow> c_div a b = a div b"
  by (cases "a = 0") (simp_all add: c_div_def)

text \<open>
  Claim C6. With at least one worker and a total that is not negative, after every worker
  (each rank once, in any order) has merged its local counters, \<^verbatim>\<open>member_count\<close> \<open>+\<close>
  \<^verbatim>\<open>insert_count\<close> \<open>+\<close> \<^verbatim>\<open>delete_count\<close> is \<^verbatim>\<open>thread_count * (total_ops / thread_count)\<close>
  with C's truncating division, and is \<^verbatim>\<open>total_ops\<close> itself when \<^verbatim>\<open>thread_count\<close>
  divides \<^verbatim>\<open>total_ops\<close>.
\<close>

theorem counter_conservation:
  assumes "0 < thread_count g" and "0 \<le> total_ops g"
    and "distinct merge_order" and "set merge_order = {0..<nat (thread_count g)}"
  shows "member_count (join_threads g r merge_order) + insert_count (join_threads g r merge_order)
           + delete_count (join_threads g r merge_order)
           = thread_count g * c_div (total_ops g) (thread_count g) \<and>
         (thread_count g dvd total_ops g \<longrightarrow>
            member_count (join_threads g r merge_order) + insert_count (join_threads g r merge_order)
              + delete_count (join_threads g r merge_order) = total_ops g)"
proof -
  have len: "length merge_order = nat (thread_count g)"
    using assms(3,4) distinct_card by fastforce
  have q: "c_div (total_ops g) (thread_count g) = total_ops g div thread_count g"
    using assms(1,2) by (simp add: c_div_nonneg)
  have "0 \<le> total_ops g div thread_count g"
    using assms(1,2) by (simp add: pos_imp_zdiv_nonneg_iff)
  with len q assms(1) have
    "total (join_threads g r merge_order) = thread_count g * c_div (total_ops g) (thread_count g)"
    by (simp add: join_threads_total)
  with q show ?thesis by (auto simp: total_def)
qed

theorem counter_conservation_witness:
  "(0 :: int) < 4 \<and> (0 :: int) \<le> 10 \<and> distinct [2, 0, 3, 1 :: nat] \<and>
   set [2, 0, 3, 1 :: nat] = {0..<nat 4} \<and> c_div 10 4 = 2 \<and>
   member_count (join_threads
       \<lparr>thread_count = 4, total_ops = 10, search_percent = 0.8 :: real, insert_percent = 0.1\<rparr>
       \<lparr>my_drand = (\<lambda>seed. (real (seed mod 10) / 10, seed + 7)),
        my_rand = (\<lambda>seed. (seed * 3, seed + 1))\<rparr> [2, 0, 3, 1]) +
   insert_count (join_threads
       \<lparr>thread_count = 4, total_ops = 10, search_percent = 0.8 :: real, insert_percent = 0.1\<rparr>
       \<lparr>my_drand = (\<lambda>seed. (real (seed mod 10) / 10, seed + 7)),
        my_rand = (\<lambda>seed. (seed * 3, seed + 1))\<rparr> [2, 0, 3, 1]) +
   delete_count (join_threads
       \<lparr>thread_count = 4, total_ops = 10, search_percent = 0.8 :: real, insert_percent = 0.1\<rparr>
       \<lparr>my_drand = (\<lambda>seed. (real (seed mod 10) / 10, seed + 7)),
        my_rand = (\<lambda>seed. (seed * 3, seed + 1))\<rparr> [2, 0, 3, 1]) = 8"
proof -
  let ?g = "\<lparr>thread_count = 4, total_ops = 10, search_percent = 0.8 :: real, insert_percent = 0.1\<rparr>"
  have h: "0 < thread_count ?g" "0 \<le> total_ops ?g" "distinct [2, 0, 3, 1 :: nat]"
    by simp_all
  have s: "set [2, 0, 3, 1 :: nat] = {0..<nat (thread_count ?g)}"
    by (auto simp: eval_nat_numeral)
  have c: "c_div 10 4 = 2" by (simp add: c_div_def)
  from counter_conservation [OF h s] h s c show ?thesis by simp
qed

subsection \<open>The exit status\<close>

text \<open>
  Claim C5, as amended. The process exits with status 0 on successful completion, writing
  nothing to the error stream. On an argument count other than 2 it writes the usage line
  to the error stream, writes nothing else, and exits with status 0 as well.
\<close>

theorem harness_exit:
  "exit_status (main argc prog_name strtol_value input r merge_order) = 0 \<and>
   to_stderr (main argc prog_name strtol_value input r merge_order) =
     (if argc \<noteq> 2 then [''usage: '' @ prog_name @ '' <thread_count>'' @ [CHR 0x0A]] else []) \<and>
   (argc \<noteq> 2 \<longrightarrow> to_stdout (main argc prog_name strtol_value input r merge_order) = [])"
  by (simp add: main_def Usage_def Let_def)

theorem harness_exit_witness:
  "(1 :: int) \<noteq> 2 \<and>
   exit_status (main 2 ''./test_pthread'' 4
     \<lparr>in_inserts_in_main = 3, in_total_ops = 10, in_search_percent = 0.8 :: real,
      in_insert_percent = 0.1\<rparr>
     \<lparr>my_drand = (\<lambda>seed. (real (seed mod 10) / 10, seed + 7)),
      my_rand = (\<lambda>seed. (seed * 3, seed + 1))\<rparr> [2, 0, 3, 1]) = 0 \<and>
   main 1 ''./test_pthread'' 0
     \<lparr>in_inserts_in_main = 0, in_total_ops = 0, in_search_percent = 0 :: real,
      in_insert_percent = 0\<rparr>
     \<lparr>my_drand = (\<lambda>seed. (0, seed)), my_rand = (\<lambda>seed. (seed, seed))\<rparr> [] =
     \<lparr>exit_status = 0,
      to_stderr = [''usage: ./test_pthread <thread_count>'' @ [CHR 0x0A]],
      to_stdout = []\<rparr>"
  using harness_exit [of 1 "''./test_pthread''" 0
     "\<lparr>in_inserts_in_main = 0, in_total_ops = 0, in_search_percent = 0 :: real,
      in_insert_percent = 0\<rparr>"
     "\<lparr>my_drand = (\<lambda>seed. (0, seed)), my_rand = (\<lambda>seed. (seed, seed))\<rparr>" "[]"]
  by (simp add: main_def Usage_def Let_def)

text \<open>
  The claim as stated fails for a call without the thread count (\<^verbatim>\<open>argc == 1\<close>): the exit
  status is 0.
\<close>

theorem usage_exit_counterexample:
  "(1 :: int) \<noteq> 2 \<and>
   exit_status (main 1 ''./test_pthread'' 0
     \<lparr>in_inserts_in_main = 0, in_total_ops = 0, in_search_percent = 0 :: real,
      in_insert_percent = 0\<rparr>
     \<lparr>my_drand = (\<lambda>seed. (0, seed)), my_rand = (\<lambda>seed. (seed, seed))\<rparr> []) = 0"
  by (simp add: main_def Usage_def)

end
